theory Spec2Isabelle
  imports Complex_Main "HOL-Library.Monad_Syntax"
begin

section \<open>The node-linked binary tree of BinaryTree.h and BinaryTree.cpp\<close>

text \<open>
  The repository holds two copies of the class template \<open>BinaryTree<T>\<close>. Both copies share
  the node type, array construction, the counting queries, the traversals and
  \<open>to_flat_array\<close>; they differ in the copy constructor, in \<open>operator=\<close> and in
  \<open>operator==\<close>: BinaryTree.h goes through a flat array, BinaryTree.cpp through the recursive
  helpers \<open>clone\<close> and \<open>compare\<close>.

  Modelling decisions.
  \<^item> A \<open>BTNode<T>*\<close> is a value of the datatype \<open>BTNode\<close>: \<open>NULL\<close> or a node with its
    element and its two children. The nodes of a tree are owned by their parents and are
    never shared, so no store is needed for the properties below.
  \<^item> The C++ type \<open>int\<close> has 32 bits. Two helpers compute indices, with \<open>2 * index\<close> and
    \<open>2 * index + 1\<close>: the helper of \<open>init_complete\<close> and the helper of \<open>to_flat_array\<close>.
    They are modelled twice. The functions with the suffix \<open>_i32\<close> write the arithmetic of
    \<open>int\<close> out: a result outside \<open>-2^31 .. 2^31 - 1\<close> wraps around modulo \<open>2^32\<close>, as
    the compiled code does (the C++ standard leaves signed overflow undefined). The functions
    without the suffix compute over the mathematical integers. The two agree as long as the
    position of no node exceeds \<open>INT_MAX\<close>, in particular on every tree that array
    construction returns. The claims on array construction and on \<open>to_flat_array\<close> are
    stated on the \<open>_i32\<close> functions. The operators of BinaryTree.h are studied on complete
    trees, over the mathematical integers.
  \<^item> A \<open>T*\<close> array is a function from indices to elements. A store
    \<open>elements[index] = v\<close> is the function update \<open>elements(index := v)\<close>.
  \<^item> \<open>T\<close>'s \<open>==\<close> and \<open>!=\<close> are equality on the element type and its negation.
  \<^item> \<open>new T[k]\<close> default-initialises its cells: for \<open>int\<close> they hold indeterminate
    values, for a class type the default-constructed value. The content of every freshly
    allocated array is therefore a parameter of the function that allocates it.
  \<^item> A visitor \<open>void (*f)(const T&)\<close> acts on the world outside the tree (the test's visitor
    prints); it is a function from the element and the state of that world to the new state.
\<close>

subsection \<open>Nodes and trees\<close>

datatype 'a BTNode = NULL | BTNode (elem: 'a) (left: "'a BTNode") (right: "'a BTNode")

text \<open>
  \<open>is_leaf\<close> is a member function of the node and is only ever called on a node that
  exists; no caller below reaches its equation for \<open>NULL\<close>.
\<close>

fun is_leaf :: "'a BTNode \<Rightarrow> bool" where
  "is_leaf NULL = False"
| "is_leaf (BTNode e l r) = (l = NULL \<and> r = NULL)"

record 'a BinaryTree =
  root :: "'a BTNode"

subsection \<open>Construction from an array\<close>

text \<open>
  The helper \<open>init_complete(elements, n_elements, index)\<close> recurses on \<open>2 * index\<close> and
  \<open>2 * index + 1\<close> until the index passes \<open>n_elements\<close>. Started at an index below 1 it
  never returns, so the model is a partial function: \<open>None\<close> stands for not returning.
\<close>

partial_function (option) init_complete_node ::
  "(int \<Rightarrow> 'a) \<Rightarrow> int \<Rightarrow> int \<Rightarrow> 'a BTNode option" where
  [code]: "init_complete_node elements n_elements index =
     (if index > n_elements then Some NULL
      else do {
        l \<leftarrow> init_complete_node elements n_elements (2 * index);
        r \<leftarrow> init_complete_node elements n_elements (2 * index + 1);
        Some (BTNode (elements index) l r)
      })"

definition init_complete ::
  "'a BinaryTree \<Rightarrow> (int \<Rightarrow> 'a) \<Rightarrow> int \<Rightarrow> 'a BinaryTree option" where
  "init_complete this elements n_elements =
     map_option (\<lambda>r. this\<lparr>root := r\<rparr>) (init_complete_node elements n_elements 1)"

definition BinaryTree_array :: "(int \<Rightarrow> 'a) \<Rightarrow> int \<Rightarrow> 'a BinaryTree option" where
  "BinaryTree_array elements n_elements =
     init_complete \<lparr>root = NULL\<rparr> elements n_elements"

subsection \<open>Access and tests\<close>

fun node_count_node :: "'a BTNode \<Rightarrow> int" where
  "node_count_node NULL = 0"
| "node_count_node (BTNode e l r) = 1 + node_count_node l + node_count_node r"

fun height_node :: "'a BTNode \<Rightarrow> int" where
  "height_node NULL = 0"
| "height_node (BTNode e l r) =
     (if is_leaf (BTNode e l r) then 1
      else let lh = height_node l + 1; rh = height_node r + 1
           in if lh > rh then lh else rh)"

fun leaf_count_node :: "'a BTNode \<Rightarrow> int" where
  "leaf_count_node NULL = 0"
| "leaf_count_node (BTNode e l r) =
     (if is_leaf (BTNode e l r) then 1
      else leaf_count_node l + leaf_count_node r)"

definition is_empty :: "'a BinaryTree \<Rightarrow> bool" where
  "is_empty this = (if root this \<noteq> NULL then False else True)"

definition node_count :: "'a BinaryTree \<Rightarrow> int" where
  "node_count this = node_count_node (root this)"

definition height :: "'a BinaryTree \<Rightarrow> int" where
  "height this = height_node (root this)"

definition leaf_count :: "'a BinaryTree \<Rightarrow> int" where
  "leaf_count this = leaf_count_node (root this)"

subsection \<open>Traversal\<close>

fun preorder_node :: "('a \<Rightarrow> 's \<Rightarrow> 's) \<Rightarrow> 'a BTNode \<Rightarrow> 's \<Rightarrow> 's" where
  "preorder_node f NULL s = s"
| "preorder_node f (BTNode e l r) s =
     preorder_node f r (preorder_node f l (f e s))"

fun inorder_node :: "('a \<Rightarrow> 's \<Rightarrow> 's) \<Rightarrow> 'a BTNode \<Rightarrow> 's \<Rightarrow> 's" where
  "inorder_node f NULL s = s"
| "inorder_node f (BTNode e l r) s =
     inorder_node f r (f e (inorder_node f l s))"

fun postorder_node :: "('a \<Rightarrow> 's \<Rightarrow> 's) \<Rightarrow> 'a BTNode \<Rightarrow> 's \<Rightarrow> 's" where
  "postorder_node f NULL s = s"
| "postorder_node f (BTNode e l r) s =
     f e (postorder_node f r (postorder_node f l s))"

definition preorder :: "('a \<Rightarrow> 's \<Rightarrow> 's) \<Rightarrow> 'a BinaryTree \<Rightarrow> 's \<Rightarrow> 's" where
  "preorder f this s = preorder_node f (root this) s"

definition inorder :: "('a \<Rightarrow> 's \<Rightarrow> 's) \<Rightarrow> 'a BinaryTree \<Rightarrow> 's \<Rightarrow> 's" where
  "inorder f this s = inorder_node f (root this) s"

definition postorder :: "('a \<Rightarrow> 's \<Rightarrow> 's) \<Rightarrow> 'a BinaryTree \<Rightarrow> 's \<Rightarrow> 's" where
  "postorder f this s = postorder_node f (root this) s"

subsection \<open>Conversion to arrays\<close>

text \<open>
  The helper updates the caller's array and the reference parameter \<open>max_index\<close>; the model
  returns the helper's return value, the array and \<open>max_index\<close> as they are after the call.
  The return values of the two recursive calls are discarded, as in the source.
\<close>

fun to_flat_array_node ::
  "(int \<Rightarrow> 'a) \<Rightarrow> int \<Rightarrow> 'a BTNode \<Rightarrow> int \<Rightarrow> int \<Rightarrow> int \<times> (int \<Rightarrow> 'a) \<times> int" where
  "to_flat_array_node elements mx NULL index max_index = (0, elements, max_index)"
| "to_flat_array_node elements mx (BTNode e l r) index max_index =
     (let max_index1 = (if index > max_index then index else max_index);
          elements1 = (if index \<le> mx then elements(index := e) else elements);
          (ret2, elements2, max_index2) =
             to_flat_array_node elements1 mx l (2 * index) max_index1;
          (ret3, elements3, max_index3) =
             to_flat_array_node elements2 mx r (2 * index + 1) max_index2
      in (max_index3, elements3, max_index3))"

definition to_flat_array ::
  "'a BinaryTree \<Rightarrow> (int \<Rightarrow> 'a) \<Rightarrow> int \<Rightarrow> int \<times> (int \<Rightarrow> 'a)" where
  "to_flat_array this elements mx =
     (let max_index = 1;
          (ret, elements', max_index') =
             to_flat_array_node elements mx (root this) 1 max_index
      in (ret, elements'))"

subsection \<open>Index arithmetic in the width of \<open>int\<close>\<close>

text \<open>
  \<open>INT_MAX\<close> is the largest value of a 32-bit \<open>int\<close>; \<open>wrap_int\<close> maps the mathematical
  result of an operation on \<open>int\<close> to the value the machine computes, its representative in
  \<open>-2^31 .. 2^31 - 1\<close> modulo \<open>2^32\<close>.
\<close>

definition INT_MAX :: int where
  "INT_MAX = 2147483647"

definition wrap_int :: "int \<Rightarrow> int" where
  "wrap_int x = (x + 2147483648) mod 4294967296 - 2147483648"

text \<open>
  Array construction with the index arithmetic of \<open>int\<close>: \<open>2 * index\<close> is computed and
  wrapped, then one is added and the sum wrapped. \<open>None\<close> stands for not returning.
\<close>

partial_function (option) init_complete_node_i32 ::
  "(int \<Rightarrow> 'a) \<Rightarrow> int \<Rightarrow> int \<Rightarrow> 'a BTNode option" where
  [code]: "init_complete_node_i32 elements n_elements index =
     (if index > n_elements then Some NULL
      else do {
        l \<leftarrow> init_complete_node_i32 elements n_elements (wrap_int (2 * index));
        r \<leftarrow> init_complete_node_i32 elements n_elements (wrap_int (wrap_int (2 * index) + 1));
        Some (BTNode (elements index) l r)
      })"

definition init_complete_i32 ::
  "'a BinaryTree \<Rightarrow> (int \<Rightarrow> 'a) \<Rightarrow> int \<Rightarrow> 'a BinaryTree option" where
  "init_complete_i32 this elements n_elements =
     map_option (\<lambda>r. this\<lparr>root := r\<rparr>) (init_complete_node_i32 elements n_elements 1)"

definition BinaryTree_array_i32 :: "(int \<Rightarrow> 'a) \<Rightarrow> int \<Rightarrow> 'a BinaryTree option" where
  "BinaryTree_array_i32 elements n_elements =
     init_complete_i32 \<lparr>root = NULL\<rparr> elements n_elements"

text \<open>\<open>to_flat_array\<close> with the index arithmetic of \<open>int\<close>.\<close>

fun to_flat_array_node_i32 ::
  "(int \<Rightarrow> 'a) \<Rightarrow> int \<Rightarrow> 'a BTNode \<Rightarrow> int \<Rightarrow> int \<Rightarrow> int \<times> (int \<Rightarrow> 'a) \<times> int" where
  "to_flat_array_node_i32 elements mx NULL index max_index = (0, elements, max_index)"
| "to_flat_array_node_i32 elements mx (BTNode e l r) index max_index =
     (let max_index1 = (if index > max_index then index else max_index);
          elements1 = (if index \<le> mx then elements(index := e) else elements);
          (ret2, elements2, max_index2) =
             to_flat_array_node_i32 elements1 mx l (wrap_int (2 * index)) max_index1;
          (ret3, elements3, max_index3) =
             to_flat_array_node_i32 elements2 mx r (wrap_int (wrap_int (2 * index) + 1)) max_index2
      in (max_index3, elements3, max_index3))"

definition to_flat_array_i32 ::
  "'a BinaryTree \<Rightarrow> (int \<Rightarrow> 'a) \<Rightarrow> int \<Rightarrow> int \<times> (int \<Rightarrow> 'a)" where
  "to_flat_array_i32 this elements mx =
     (let max_index = 1;
          (ret, elements', max_index') =
             to_flat_array_node_i32 elements mx (root this) 1 max_index
      in (ret, elements'))"

subsection \<open>Operators of BinaryTree.h: through the flat array\<close>




text \<open>\<open>srcEle0\<close> is the content of the array \<open>new T[srcNodeNum + 1]\<close> as allocated.\<close>

definition BinaryTree_copy_h :: "(int \<Rightarrow> 'a) \<Rightarrow> 'a BinaryTree \<Rightarrow> 'a BinaryTree option" where
  "BinaryTree_copy_h srcEle0 src =
     (let srcNodeNum = node_count src;
          srcEle = snd (to_flat_array src srcEle0 srcNodeNum)
      in init_complete \<lparr>root = NULL\<rparr> srcEle srcNodeNum)"

definition operator_assign_h ::
  "(int \<Rightarrow> 'a) \<Rightarrow> 'a BinaryTree \<Rightarrow> 'a BinaryTree \<Rightarrow> 'a BinaryTree option" where
  "operator_assign_h srcEle0 this src =
     (let srcNodeNum = node_count src;
          srcEle = snd (to_flat_array src srcEle0 srcNodeNum)
      in init_complete (this\<lparr>root := NULL\<rparr>) srcEle srcNodeNum)"

subsection \<open>Operators of BinaryTree.cpp: through the recursive helpers\<close>




subsection \<open>Notions of the specification\<close>

text \<open>
  Complete-tree numbering: the root is at position 1 and the children of the node at
  position \<open>i\<close> are at \<open>2 * i\<close> and \<open>2 * i + 1\<close>. \<open>positions node i\<close> lists the positions of
  the nodes below a node that sits at position \<open>i\<close>, the node itself first.
\<close>

fun positions :: "'a BTNode \<Rightarrow> int \<Rightarrow> int list" where
  "positions NULL i = []"
| "positions (BTNode e l r) i = i # positions l (2 * i) @ positions r (2 * i + 1)"

text \<open>
  \<open>below i\<close> is the set of positions at or below position \<open>i\<close> in the complete-tree
  numbering: the positions that reach \<open>i\<close> by going to the parent (halving) some number
  of times.
\<close>

definition below :: "int \<Rightarrow> int set" where
  "below i = {j. \<exists>k::nat. j div 2 ^ k = i}"

text \<open>
  A tree is complete when its nodes sit at exactly the positions 1 to \<open>node_count\<close>: every
  level is full except possibly the last, which is filled from the left without gaps.
\<close>

definition complete :: "'a BinaryTree \<Rightarrow> bool" where
  "complete this = (set (positions (root this) 1) = {1..node_count this})"

text \<open>The positions of all nodes of a tree are values of \<open>int\<close>.\<close>

definition positions_fit_int :: "'a BinaryTree \<Rightarrow> bool" where
  "positions_fit_int this = list_all (\<lambda>p. p \<le> INT_MAX) (positions (root this) 1)"

text \<open>
  \<open>right_spine k x\<close> is the tree of \<open>k\<close> nodes, each holding \<open>x\<close>, in which every node
  but the last has a right child only. Its nodes sit at the positions \<open>2^1 - 1\<close>,
  \<open>2^2 - 1\<close>, ..., \<open>2^k - 1\<close>.
\<close>

fun right_spine :: "nat \<Rightarrow> 'a \<Rightarrow> 'a BTNode" where
  "right_spine 0 x = NULL"
| "right_spine (Suc k) x = BTNode x NULL (right_spine k x)"


text \<open>
  The reference sequences of the three traversal orders: node, left, right; left, node,
  right; left, right, node.
\<close>

fun preorder_seq :: "'a BTNode \<Rightarrow> 'a list" where
  "preorder_seq NULL = []"
| "preorder_seq (BTNode e l r) = [e] @ preorder_seq l @ preorder_seq r"

fun inorder_seq :: "'a BTNode \<Rightarrow> 'a list" where
  "inorder_seq NULL = []"
| "inorder_seq (BTNode e l r) = inorder_seq l @ [e] @ inorder_seq r"

fun postorder_seq :: "'a BTNode \<Rightarrow> 'a list" where
  "postorder_seq NULL = []"
| "postorder_seq (BTNode e l r) = postorder_seq l @ postorder_seq r @ [e]"

text \<open>A visitor that records the elements it is called with, in the order of the calls.\<close>

definition record_visit :: "'a \<Rightarrow> 'a list \<Rightarrow> 'a list" where
  "record_visit e visited = visited @ [e]"

section \<open>Traversals\<close>

lemma preorder_node_fold: "preorder_node f t s = fold f (preorder_seq t) s"
  by (induction t arbitrary: s) simp_all

lemma inorder_node_fold: "inorder_node f t s = fold f (inorder_seq t) s"
  by (induction t arbitrary: s) simp_all

lemma postorder_node_fold: "postorder_node f t s = fold f (postorder_seq t) s"
  by (induction t arbitrary: s) simp_all

lemma fold_record_visit: "fold record_visit xs visited = visited @ xs"
  by (induction xs arbitrary: visited) (simp_all add: record_visit_def)

lemma length_preorder_seq: "int (length (preorder_seq t)) = node_count_node t"
  by (induction t) simp_all

lemma length_inorder_seq: "int (length (inorder_seq t)) = node_count_node t"
  by (induction t) simp_all

lemma length_postorder_seq: "int (length (postorder_seq t)) = node_count_node t"
  by (induction t) simp_all

lemma BinaryTree_array_10_20_30:
  "BinaryTree_array ((\<lambda>i. 0)(1 := 10, 2 := 20, 3 := 30)) 3 =
     Some \<lparr>root = BTNode (10::int) (BTNode 20 NULL NULL) (BTNode 30 NULL NULL)\<rparr>"
  by (simp add: BinaryTree_array_def init_complete_def init_complete_node.simps)

text \<open>
  Claim C8. On every tree and for every visitor \<open>f\<close>, each of \<open>preorder\<close>, \<open>inorder\<close> and
  \<open>postorder\<close> makes exactly the calls of \<open>f\<close> on the reference sequence of its order, from
  first to last; each reference sequence has one entry per node, so the visitor is called
  exactly once per node. With the recording visitor the elements visited are the reference
  sequence itself. On the tree built from \<open>[_, 10, 20, 30]\<close> preorder visits
  \<open>[10, 20, 30]\<close> and inorder visits \<open>[20, 10, 30]\<close>.
\<close>

theorem traversals_follow_their_order:
  "preorder f this s = fold f (preorder_seq (root this)) s
   \<and> inorder f this s = fold f (inorder_seq (root this)) s
   \<and> postorder f this s = fold f (postorder_seq (root this)) s
   \<and> preorder record_visit this [] = preorder_seq (root this)
   \<and> inorder record_visit this [] = inorder_seq (root this)
   \<and> postorder record_visit this [] = postorder_seq (root this)
   \<and> int (length (preorder_seq (root this))) = node_count this
   \<and> int (length (inorder_seq (root this))) = node_count this
   \<and> int (length (postorder_seq (root this))) = node_count this
   \<and> (\<exists>tree. BinaryTree_array ((\<lambda>i. 0)(1 := 10, 2 := 20, 3 := 30)) 3 = Some tree
         \<and> preorder record_visit tree [] = [10, 20, 30 :: int]
         \<and> inorder record_visit tree [] = [20, 10, 30])"
  by (simp add: preorder_def inorder_def postorder_def node_count_def
      preorder_node_fold inorder_node_fold postorder_node_fold fold_record_visit
      length_preorder_seq length_inorder_seq length_postorder_seq
      BinaryTree_array_10_20_30)

section \<open>Conversion to a flat array\<close>

text \<open>
  From here up to the last section the statements are about the functions over the
  mathematical integers; the last section carries the results on array construction and on
  \<open>to_flat_array\<close> over to the arithmetic of \<open>int\<close>.
\<close>

lemma to_flat_array_node_max_index:
  "snd (snd (to_flat_array_node elements mx t i max_index)) = fold max (positions t i) max_index"
  by (induction t arbitrary: elements i max_index) (auto simp: split_beta Let_def max_def)

lemma to_flat_array_node_return:
  "fst (to_flat_array_node elements mx t i max_index) =
     (if t = NULL then 0 else fold max (positions t i) max_index)"
  by (cases t) (auto simp: split_beta Let_def to_flat_array_node_max_index max_def)

lemma to_flat_array_node_frame:
  "\<not> (j \<in> set (positions t i) \<and> j \<le> mx) \<Longrightarrow>
     fst (snd (to_flat_array_node elements mx t i max_index)) j = elements j"
  by (induction t arbitrary: elements i max_index) (auto simp: split_beta Let_def)

lemma positions_ge: "1 \<le> i \<Longrightarrow> j \<in> set (positions t i) \<Longrightarrow> i \<le> j"
proof (induction t arbitrary: i)
  case NULL
  then show ?case by simp
next
  case (BTNode e l r)
  from BTNode.prems(2) consider "j = i" | "j \<in> set (positions l (2 * i))"
    | "j \<in> set (positions r (2 * i + 1))" by auto
  then show ?case
  proof cases
    case 1
    then show ?thesis by simp
  next
    case 2
    with BTNode.IH(1) [of "2 * i"] BTNode.prems(1) show ?thesis by simp
  next
    case 3
    with BTNode.IH(2) [of "2 * i + 1"] BTNode.prems(1) show ?thesis by simp
  qed
qed

lemma to_flat_array_frame_aux:
  assumes "\<not> (1 \<le> j \<and> j \<le> mx \<and> j \<in> set (positions (root this) 1))"
  shows "snd (to_flat_array this elements mx) j = elements j"
proof -
  have "\<not> (j \<in> set (positions (root this) 1) \<and> j \<le> mx)"
    using assms positions_ge [of 1 j "root this"] by auto
  then show ?thesis
    by (simp add: to_flat_array_def split_beta to_flat_array_node_frame)
qed

text \<open>
  Over the mathematical integers the value returned is the largest position of a node, and 0
  on the empty tree.
\<close>

lemma to_flat_array_return:
  "fst (to_flat_array this elements mx) =
     (if root this = NULL then 0 else Max (set (positions (root this) 1)))"
proof (cases "root this")
  case NULL
  then show ?thesis by (simp add: to_flat_array_def)
next
  case (BTNode e l r)
  define below where "below = positions l 2 @ positions r 3"
  have pos: "positions (BTNode e l r) 1 = 1 # below"
    by (simp add: below_def)
  have "fold max (1 # below) 1 = fold max below 1"
    by simp
  also have "\<dots> = Max (set (1 # below))"
    by (rule Max.set_eq_fold [symmetric])
  finally have m: "fold max (positions (root this) 1) 1 = Max (set (positions (root this) 1))"
    by (simp only: pos BTNode)
  have "fst (to_flat_array this elements mx) = fst (to_flat_array_node elements mx (root this) 1 1)"
    by (simp add: to_flat_array_def split_beta)
  also have "\<dots> = fold max (positions (root this) 1) 1"
    using BTNode by (simp only: to_flat_array_node_return) simp
  finally show ?thesis
    using BTNode m by simp
qed

section \<open>Array construction builds the complete tree\<close>

lemma init_complete_node_NULL: "n < i \<Longrightarrow> init_complete_node e n i = Some NULL"
  by (subst init_complete_node.simps) simp

lemma init_complete_node_BTNode:
  "i \<le> n \<Longrightarrow> init_complete_node e n i =
     do { l \<leftarrow> init_complete_node e n (2 * i);
          r \<leftarrow> init_complete_node e n (2 * i + 1);
          Some (BTNode (e i) l r) }"
  by (subst init_complete_node.simps) simp

lemma init_complete_node_returns: "1 \<le> i \<Longrightarrow> \<exists>t. init_complete_node e n i = Some t"
proof (induction "nat (n + 1 - i)" arbitrary: i rule: less_induct)
  case less
  show ?case
  proof (cases "n < i")
    case True
    then show ?thesis by (simp add: init_complete_node_NULL)
  next
    case False
    then have le: "i \<le> n" by simp
    have "nat (n + 1 - 2 * i) < nat (n + 1 - i)" "1 \<le> 2 * i"
      using le less.prems by auto
    from less.hyps [OF this] obtain l where l: "init_complete_node e n (2 * i) = Some l" by blast
    have "nat (n + 1 - (2 * i + 1)) < nat (n + 1 - i)" "1 \<le> 2 * i + 1"
      using le less.prems by auto
    from less.hyps [OF this] obtain r where r: "init_complete_node e n (2 * i + 1) = Some r" by blast
    show ?thesis using le l r by (simp add: init_complete_node_BTNode)
  qed
qed

lemma init_complete_node_induct [consumes 1, case_names NULL BTNode]:
  assumes "init_complete_node e n i = Some t"
    and "\<And>i. n < i \<Longrightarrow> P i NULL"
    and "\<And>i l r. i \<le> n \<Longrightarrow> init_complete_node e n (2 * i) = Some l \<Longrightarrow>
           init_complete_node e n (2 * i + 1) = Some r \<Longrightarrow> P (2 * i) l \<Longrightarrow> P (2 * i + 1) r \<Longrightarrow>
           P i (BTNode (e i) l r)"
  shows "P i t"
  using assms(1)
proof (induction t arbitrary: i)
  case NULL
  have "n < i"
  proof (rule ccontr)
    assume "\<not> n < i"
    then have "i \<le> n" by simp
    from init_complete_node_BTNode [OF this, of e] NULL
    have "do { l \<leftarrow> init_complete_node e n (2 * i);
               r \<leftarrow> init_complete_node e n (2 * i + 1);
               Some (BTNode (e i) l r) } = Some NULL"
      by simp
    then show False
      by (auto simp: bind_eq_Some_conv)
  qed
  then show ?case by (rule assms(2))
next
  case (BTNode x l r)
  have le: "i \<le> n"
  proof (rule ccontr)
    assume "\<not> i \<le> n"
    then have "n < i" by simp
    from init_complete_node_NULL [OF this, of e] BTNode.prems show False by simp
  qed
  from init_complete_node_BTNode [OF le, of e] BTNode.prems
  have "do { l \<leftarrow> init_complete_node e n (2 * i);
             r \<leftarrow> init_complete_node e n (2 * i + 1);
             Some (BTNode (e i) l r) } = Some (BTNode x l r)"
    by simp
  then have l: "init_complete_node e n (2 * i) = Some l"
    and r: "init_complete_node e n (2 * i + 1) = Some r" and x: "x = e i"
    by (auto simp: bind_eq_Some_conv)
  show ?case unfolding x
    by (rule assms(3) [OF le l r BTNode.IH(1) [OF l] BTNode.IH(2) [OF r]])
qed

lemma div2_cases: "(a::int) div 2 = i \<Longrightarrow> a = 2 * i \<or> a = 2 * i + 1"
  by presburger

lemma below_refl: "i \<in> below i"
  unfolding below_def by (auto intro: exI [of _ 0])

lemma below_step: "below i = insert i (below (2 * i) \<union> below (2 * i + 1))"
proof (rule set_eqI)
  fix j :: int
  have step: "j div 2 ^ Suc k = (j div 2 ^ k) div 2" for k
    unfolding power_Suc2 by (rule zdiv_zmult2_eq) simp
  show "j \<in> below i \<longleftrightarrow> j \<in> insert i (below (2 * i) \<union> below (2 * i + 1))"
  proof
    assume "j \<in> below i"
    then obtain k where k: "j div 2 ^ k = i" by (auto simp: below_def)
    show "j \<in> insert i (below (2 * i) \<union> below (2 * i + 1))"
    proof (cases k)
      case 0
      with k show ?thesis by simp
    next
      case (Suc k')
      with k step [of k'] have "(j div 2 ^ k') div 2 = i" by simp
      then have "j div 2 ^ k' = 2 * i \<or> j div 2 ^ k' = 2 * i + 1" by (rule div2_cases)
      then show ?thesis by (auto simp: below_def)
    qed
  next
    assume "j \<in> insert i (below (2 * i) \<union> below (2 * i + 1))"
    then consider "j = i" | k where "j div 2 ^ k = 2 * i" | k where "j div 2 ^ k = 2 * i + 1"
      by (auto simp: below_def)
    then show "j \<in> below i"
    proof cases
      case 1
      then show ?thesis by (simp add: below_refl)
    next
      case 2
      with step [of k] have "j div 2 ^ Suc k = i" by simp
      then show ?thesis unfolding below_def by blast
    next
      case 3
      with step [of k] have "j div 2 ^ Suc k = i" by simp
      then show ?thesis unfolding below_def by blast
    qed
  qed
qed

lemma below_ge: assumes "1 \<le> i" "j \<in> below i" shows "i \<le> j"
proof -
  from assms obtain k :: nat where k: "j div 2 ^ k = i" by (auto simp: below_def)
  have "0 \<le> j"
  proof (rule ccontr)
    assume "\<not> 0 \<le> j"
    then have "j div 2 ^ k < 0" by (simp add: div_neg_pos_less0)
    with k assms(1) show False by simp
  qed
  then have "j div 2 ^ k \<le> j div 1" by (intro zdiv_mono2) auto
  with k show ?thesis by simp
qed

lemma below_disjoint: assumes "1 \<le> i" shows "below (2 * i) \<inter> below (2 * i + 1) = {}"
proof (rule ccontr)
  assume "below (2 * i) \<inter> below (2 * i + 1) \<noteq> {}"
  then obtain j k k' where k: "j div 2 ^ k = 2 * i" and k': "j div 2 ^ k' = 2 * i + 1"
    by (auto simp: below_def)
  have later: "b \<le> a div 2" if "j div 2 ^ m = a" "j div 2 ^ m' = b" "m < m'" "0 \<le> a" for a b and m m' :: nat
  proof -
    from that(3) obtain d where d: "m' = m + Suc d" by (auto simp: less_iff_Suc_add)
    have "j div 2 ^ m' = (j div 2 ^ m) div 2 ^ Suc d"
      unfolding d power_add by (rule zdiv_zmult2_eq) simp
    then have "b = a div 2 ^ Suc d" using that by simp
    also have "\<dots> \<le> a div 2"
      using that(4) by (intro zdiv_mono2) auto
    finally show ?thesis .
  qed
  consider "k < k'" | "k' < k" | "k = k'" by linarith
  then show False
  proof cases
    case 1
    from later [OF k k' 1] assms show False by simp
  next
    case 2
    from later [OF k' k 2] assms show False by simp
  next
    case 3
    with k k' show False by simp
  qed
qed

lemma below_1: "1 \<le> j \<Longrightarrow> j \<in> below 1"
proof (induction "nat j" arbitrary: j rule: less_induct)
  case less
  show ?case
  proof (cases "j = 1")
    case True
    then show ?thesis by (simp add: below_refl)
  next
    case False
    with less.prems have "nat (j div 2) < nat j" "1 \<le> j div 2" by auto
    from less.hyps [OF this] obtain k :: nat where "(j div 2) div 2 ^ k = 1"
      by (auto simp: below_def)
    moreover have "j div 2 ^ Suc k = (j div 2) div 2 ^ k"
      unfolding power_Suc by (rule zdiv_zmult2_eq) simp
    ultimately have "j div 2 ^ Suc k = 1" by simp
    then show ?thesis unfolding below_def by blast
  qed
qed

lemma positions_init_complete_node:
  assumes "init_complete_node e n i = Some t" "1 \<le> i"
  shows "set (positions t i) = {j \<in> below i. j \<le> n} \<and> distinct (positions t i)"
  using assms
proof (induction rule: init_complete_node_induct)
  case (NULL i)
  then show ?case using below_ge [of i] by force
next
  case (BTNode i l r)
  have p2: "1 \<le> 2 * i" "1 \<le> 2 * i + 1"
    using BTNode.prems by simp_all
  have l: "set (positions l (2 * i)) = {j \<in> below (2 * i). j \<le> n}" "distinct (positions l (2 * i))"
    using BTNode p2 by blast+
  have r: "set (positions r (2 * i + 1)) = {j \<in> below (2 * i + 1). j \<le> n}" "distinct (positions r (2 * i + 1))"
    using BTNode p2 by blast+
  have le: "i \<le> n" by fact
  have ni: "i \<notin> below (2 * i)" "i \<notin> below (2 * i + 1)"
    using below_ge [of "2 * i" i] below_ge [of "2 * i + 1" i] BTNode.prems by auto
  have "set (positions (BTNode (e i) l r) i) =
          insert i ({j \<in> below (2 * i). j \<le> n} \<union> {j \<in> below (2 * i + 1). j \<le> n})"
    by (simp add: l(1) r(1))
  also have "\<dots> = {j \<in> below i. j \<le> n}"
  proof (rule set_eqI)
    fix j
    have "j \<in> below i \<longleftrightarrow> j = i \<or> j \<in> below (2 * i) \<or> j \<in> below (2 * i + 1)"
      using below_step [of i] by blast
    with le
    show "j \<in> insert i ({j \<in> below (2 * i). j \<le> n} \<union> {j \<in> below (2 * i + 1). j \<le> n})
            \<longleftrightarrow> j \<in> {j \<in> below i. j \<le> n}"
      by auto
  qed
  finally have s: "set (positions (BTNode (e i) l r) i) = {j \<in> below i. j \<le> n}" .
  have "set (positions l (2 * i)) \<inter> set (positions r (2 * i + 1)) = {}"
    unfolding l(1) r(1) using below_disjoint [OF BTNode.prems] by blast
  moreover have "i \<notin> set (positions l (2 * i))" "i \<notin> set (positions r (2 * i + 1))"
    unfolding l(1) r(1) using ni by simp_all
  ultimately have "distinct (positions (BTNode (e i) l r) i)"
    using l(2) r(2) by simp
  with s show ?case by (rule conjI)
qed

lemma positions_root:
  assumes "init_complete_node e n 1 = Some t"
  shows "set (positions t 1) = {1..n}" "distinct (positions t 1)"
proof -
  have "{j \<in> below 1. j \<le> n} = {1..n}"
    using below_1 below_ge [of 1] by force
  with positions_init_complete_node [OF assms]
  show "set (positions t 1) = {1..n}" "distinct (positions t 1)" by simp_all
qed

lemma node_count_positions: "node_count_node t = int (length (positions t i))"
  by (induction t arbitrary: i) simp_all

lemma node_count_init_complete_node:
  assumes "init_complete_node e n 1 = Some t"
  shows "node_count_node t = max 0 n"
proof -
  have "length (positions t 1) = card (set (positions t 1))"
    using positions_root(2) [OF assms] by (simp add: distinct_card)
  also have "\<dots> = nat n" by (simp add: positions_root(1) [OF assms])
  finally show ?thesis by (simp add: node_count_positions [of t 1])
qed

section \<open>Height of the complete tree\<close>

lemma height_node_nonneg: "0 \<le> height_node t"
  by (induction t) (auto simp: Let_def)

lemma height_init_complete_node:
  assumes "init_complete_node e n i = Some t" "1 \<le> i"
  shows "\<exists>h::nat. height_node t = int h \<and>
           (if n < i then h = 0 else 0 < h \<and> i * 2 ^ (h - 1) \<le> n \<and> n < i * 2 ^ h)"
  using assms
proof (induction rule: init_complete_node_induct)
  case (NULL i)
  then show ?case by simp
next
  case (BTNode i l r)
  have p2: "1 \<le> 2 * i" "1 \<le> 2 * i + 1"
    using BTNode.prems by simp_all
  from BTNode p2 obtain hl :: nat where hl: "height_node l = int hl"
    "if n < 2 * i then hl = 0 else 0 < hl \<and> 2 * i * 2 ^ (hl - 1) \<le> n \<and> n < 2 * i * 2 ^ hl"
    by blast
  from BTNode p2 obtain hr :: nat where hr: "height_node r = int hr"
    "if n < 2 * i + 1 then hr = 0 else 0 < hr \<and> (2 * i + 1) * 2 ^ (hr - 1) \<le> n \<and> n < (2 * i + 1) * 2 ^ hr"
    by blast
  have le: "i \<le> n" by fact
  show ?case
  proof (cases "n < 2 * i")
    case True
    then have "init_complete_node e n (2 * i) = Some NULL" "init_complete_node e n (2 * i + 1) = Some NULL"
      by (simp_all add: init_complete_node_NULL)
    with BTNode.hyps have "l = NULL" "r = NULL" by simp_all
    then have "height_node (BTNode (e i) l r) = int 1" by simp
    moreover have "i * 2 ^ (1 - 1) \<le> n \<and> n < i * 2 ^ 1"
      using le True by simp
    ultimately show ?thesis using le by (intro exI [of _ 1]) simp
  next
    case False
    with hl(2) have l: "0 < hl" "2 * i * 2 ^ (hl - 1) \<le> n" "n < 2 * i * 2 ^ hl" by simp_all
    have "l \<noteq> NULL" using hl(1) l(1) by auto
    have hrl: "hr \<le> hl"
    proof (rule ccontr)
      assume "\<not> hr \<le> hl"
      then have lt: "hl \<le> hr - 1" "0 < hr" by simp_all
      with hr(2) have "(2 * i + 1) * 2 ^ (hr - 1) \<le> n" by (auto split: if_splits)
      moreover have "(2::int) ^ hl \<le> 2 ^ (hr - 1)"
        using lt(1) by (simp add: power_increasing)
      then have "(2 * i) * 2 ^ hl \<le> (2 * i + 1) * 2 ^ (hr - 1)"
        using p2 by (intro mult_mono) auto
      ultimately show False using l(3) by simp
    qed
    have "height_node (BTNode (e i) l r) = int (Suc hl)"
      using \<open>l \<noteq> NULL\<close> hl(1) hr(1) hrl by (simp add: Let_def)
    moreover have "i * 2 ^ (Suc hl - 1) \<le> n"
    proof -
      have "(2::int) ^ hl = 2 * 2 ^ (hl - 1)"
        using l(1) by (cases hl) simp_all
      with l(2) show ?thesis by simp
    qed
    moreover have "n < i * 2 ^ Suc hl"
      using l(3) by simp
    ultimately show ?thesis using le by (intro exI [of _ "Suc hl"]) simp
  qed
qed

lemma height_root:
  assumes "init_complete_node e (int n) 1 = Some t"
  shows "height_node t = \<lceil>log 2 (real n + 1)\<rceil>"
proof -
  from height_init_complete_node [OF assms] obtain h :: nat where
    h: "height_node t = int h"
       "if int n < 1 then h = 0 else 0 < h \<and> 1 * 2 ^ (h - 1) \<le> int n \<and> int n < 1 * 2 ^ h"
    by auto
  show ?thesis
  proof (cases "n = 0")
    case True
    with h show ?thesis by simp
  next
    case False
    with h(2) have hp: "0 < h" "(2::int) ^ (h - 1) \<le> int n" "int n < 2 ^ h" by simp_all
    have "(2::nat) ^ (h - 1) \<le> n"
      using hp(2) by (metis of_nat_le_iff of_nat_numeral of_nat_power)
    then have a: "(2::nat) ^ (h - 1) < n + 1" by simp
    have "n < (2::nat) ^ h"
      using hp(3) by (metis of_nat_less_iff of_nat_numeral of_nat_power)
    then have b: "n + 1 \<le> (2::nat) ^ ((h - 1) + 1)" using hp(1) by simp
    from ceiling_log_nat_eq_if [OF a b]
    have "\<lceil>log (real 2) (real (n + 1))\<rceil> = int (h - 1) + 1" by simp
    then have "\<lceil>log 2 (real n + 1)\<rceil> = int h" using hp(1) by (simp add: add.commute)
    with h(1) show ?thesis by simp
  qed
qed

section \<open>Leaves of the complete tree\<close>

lemma init_complete_node_not_NULL:
  assumes "init_complete_node e n i = Some t" "i \<le> n"
  shows "t \<noteq> NULL"
proof
  assume "t = NULL"
  with assms(1) init_complete_node_BTNode [OF assms(2), of e]
  have "do { l \<leftarrow> init_complete_node e n (2 * i);
             r \<leftarrow> init_complete_node e n (2 * i + 1);
             Some (BTNode (e i) l r) } = Some NULL"
    by simp
  then show False by (auto simp: bind_eq_Some_conv)
qed

lemma leaf_count_init_complete_node:
  assumes "init_complete_node e n i = Some t" "1 \<le> i"
  shows "leaf_count_node t = int (length (filter (\<lambda>j. n < 2 * j) (positions t i)))"
  using assms
proof (induction rule: init_complete_node_induct)
  case (NULL i)
  then show ?case by simp
next
  case (BTNode i l r)
  have p2: "1 \<le> 2 * i" "1 \<le> 2 * i + 1"
    using BTNode.prems by simp_all
  have l: "leaf_count_node l = int (length (filter (\<lambda>j. n < 2 * j) (positions l (2 * i))))"
    using BTNode p2 by blast
  have r: "leaf_count_node r = int (length (filter (\<lambda>j. n < 2 * j) (positions r (2 * i + 1))))"
    using BTNode p2 by blast
  show ?case
  proof (cases "n < 2 * i")
    case True
    then have "init_complete_node e n (2 * i) = Some NULL" "init_complete_node e n (2 * i + 1) = Some NULL"
      by (simp_all add: init_complete_node_NULL)
    with BTNode.hyps have "l = NULL" "r = NULL" by simp_all
    with True show ?thesis by simp
  next
    case False
    then have "2 * i \<le> n" by simp
    from init_complete_node_not_NULL [OF BTNode.hyps(2) this] have "l \<noteq> NULL" .
    with False l r show ?thesis by simp
  qed
qed

lemma card_upper_half: "card {j \<in> {1..n}. n < 2 * j} = nat (n - n div 2)" for n :: int
proof -
  have "{j \<in> {1..n}. n < 2 * j} = {n div 2 + 1..n}"
    by auto
  then show ?thesis by simp
qed

lemma leaf_count_root:
  assumes "init_complete_node e n 1 = Some t"
  shows "leaf_count_node t = (if n \<le> 0 then 0 else 1 + (n - 1) div 2)"
proof -
  have "length (filter (\<lambda>j. n < 2 * j) (positions t 1)) = card ({j. n < 2 * j} \<inter> set (positions t 1))"
    using positions_root(2) [OF assms] by (rule distinct_length_filter)
  also have "{j. n < 2 * j} \<inter> set (positions t 1) = {j \<in> {1..n}. n < 2 * j}"
    unfolding positions_root(1) [OF assms] by blast
  also have "card \<dots> = nat (n - n div 2)" by (rule card_upper_half)
  finally have "leaf_count_node t = int (nat (n - n div 2))"
    using leaf_count_init_complete_node [OF assms] by simp
  then show ?thesis by auto
qed

section \<open>From the array to the tree and back\<close>

lemma to_flat_array_init_complete_node:
  assumes "init_complete_node e n i = Some t"
  shows "fst (snd (to_flat_array_node b mx t i mi)) j =
           (if j \<in> set (positions t i) \<and> j \<le> mx then e j else b j)"
  using assms
proof (induction arbitrary: b mi rule: init_complete_node_induct)
  case (NULL i)
  then show ?case by simp
next
  case (BTNode i l r)
  show ?case
    by (auto simp: split_beta Let_def BTNode.IH)
qed

lemma to_flat_array_init_complete:
  assumes "init_complete_node e n 1 = Some t"
  shows "snd (to_flat_array \<lparr>root = t\<rparr> b mx) j = (if 1 \<le> j \<and> j \<le> n \<and> j \<le> mx then e j else b j)"
  using to_flat_array_init_complete_node [OF assms, of b mx 1 j] positions_root(1) [OF assms]
  by (simp add: to_flat_array_def split_beta)

section \<open>Equality, copy and assignment\<close>






lemma init_complete_node_cong:
  assumes "init_complete_node e n i = Some t" "1 \<le> i" "\<forall>j. 1 \<le> j \<and> j \<le> n \<longrightarrow> e j = e' j"
  shows "init_complete_node e' n i = Some t"
  using assms(1,2)
proof (induction rule: init_complete_node_induct)
  case (NULL i)
  then show ?case by (simp add: init_complete_node_NULL)
next
  case (BTNode i l r)
  have p2: "1 \<le> 2 * i" "1 \<le> 2 * i + 1"
    using BTNode.prems by simp_all
  have l: "init_complete_node e' n (2 * i) = Some l" using BTNode p2 by blast
  have r: "init_complete_node e' n (2 * i + 1) = Some r" using BTNode p2 by blast
  have "e i = e' i" using assms(3) BTNode.hyps(1) BTNode.prems by simp
  with l r BTNode.hyps(1) show ?case
    by (simp add: init_complete_node_BTNode)
qed



lemma BinaryTree_array_root:
  "BinaryTree_array e n = Some a \<longleftrightarrow> init_complete_node e n 1 = Some (root a)"
  by (cases a) (auto simp: BinaryTree_array_def init_complete_def)

lemma copy_complete:
  assumes s: "init_complete_node e n 1 = Some t"
  shows "init_complete_node (snd (to_flat_array \<lparr>root = t\<rparr> srcEle0 (node_count \<lparr>root = t\<rparr>)))
           (node_count \<lparr>root = t\<rparr>) 1 = Some t"
proof -
  have c: "node_count \<lparr>root = t\<rparr> = max 0 n"
    using node_count_init_complete_node [OF s] by (simp add: node_count_def)
  show ?thesis
  proof (cases "n < 1")
    case True
    with s have "t = NULL" by (simp add: init_complete_node_NULL)
    with True c show ?thesis by (simp add: init_complete_node_NULL)
  next
    case False
    then have m: "max 0 n = n" by simp
    have "\<forall>j. 1 \<le> j \<and> j \<le> n \<longrightarrow> e j = snd (to_flat_array \<lparr>root = t\<rparr> srcEle0 n) j"
      by (simp add: to_flat_array_init_complete [OF s])
    from init_complete_node_cong [OF s _ this] show ?thesis
      unfolding c m by simp
  qed
qed

subsection \<open>The complete trees are the trees that array construction builds\<close>

lemma positions_below: "1 \<le> i \<Longrightarrow> set (positions t i) \<subseteq> below i"
proof (induction t arbitrary: i)
  case NULL
  then show ?case by simp
next
  case (BTNode x l r)
  have "set (positions l (2 * i)) \<subseteq> below (2 * i)" "set (positions r (2 * i + 1)) \<subseteq> below (2 * i + 1)"
    using BTNode.IH(1) [of "2 * i"] BTNode.IH(2) [of "2 * i + 1"] BTNode.prems by simp_all
  then show ?case
    by (subst below_step) auto
qed

lemma init_complete_node_cong_below:
  assumes "init_complete_node e n i = Some t" "\<forall>j\<in>below i. e j = e' j"
  shows "init_complete_node e' n i = Some t"
  using assms
proof (induction rule: init_complete_node_induct)
  case (NULL i)
  then show ?case by (simp add: init_complete_node_NULL)
next
  case (BTNode i l r)
  have sub: "below (2 * i) \<subseteq> below i" "below (2 * i + 1) \<subseteq> below i"
    by (subst (2) below_step, blast)+
  have l: "init_complete_node e' n (2 * i) = Some l" using BTNode sub by blast
  have r: "init_complete_node e' n (2 * i + 1) = Some r" using BTNode sub by blast
  have "e i = e' i" using BTNode.prems below_refl by blast
  with l r BTNode.hyps(1) show ?case
    by (simp add: init_complete_node_BTNode)
qed

lemma complete_shape_is_built:
  assumes "1 \<le> i" "set (positions t i) = {j \<in> below i. j \<le> n}"
  shows "\<exists>e. init_complete_node e n i = Some t"
  using assms
proof (induction t arbitrary: i)
  case NULL
  then have "n < i" using below_refl [of i] by auto
  then show ?case by (simp add: init_complete_node_NULL)
next
  case (BTNode x l r)
  have p2: "1 \<le> 2 * i" "1 \<le> 2 * i + 1" using BTNode.prems by simp_all
  have le: "i \<le> n" using BTNode.prems(2) by auto
  have sl: "set (positions l (2 * i)) \<subseteq> below (2 * i)"
    and sr: "set (positions r (2 * i + 1)) \<subseteq> below (2 * i + 1)"
    using positions_below p2 by blast+
  have dis: "below (2 * i) \<inter> below (2 * i + 1) = {}" by (rule below_disjoint [OF BTNode.prems(1)])
  have ni: "i \<notin> below (2 * i)" "i \<notin> below (2 * i + 1)"
    using below_ge [of "2 * i" i] below_ge [of "2 * i + 1" i] BTNode.prems(1) by auto
  have all: "insert i (set (positions l (2 * i)) \<union> set (positions r (2 * i + 1)))
               = {j \<in> insert i (below (2 * i) \<union> below (2 * i + 1)). j \<le> n}"
    using BTNode.prems(2) by (subst (asm) below_step) simp
  have L: "set (positions l (2 * i)) = {j \<in> below (2 * i). j \<le> n}"
  proof (intro equalityI subsetI)
    fix j assume "j \<in> set (positions l (2 * i))"
    with all sl show "j \<in> {j \<in> below (2 * i). j \<le> n}" by blast
  next
    fix j assume "j \<in> {j \<in> below (2 * i). j \<le> n}"
    then have j: "j \<in> below (2 * i)" "j \<le> n" by simp_all
    with all have "j \<in> insert i (set (positions l (2 * i)) \<union> set (positions r (2 * i + 1)))" by blast
    with j(1) ni(1) sr dis show "j \<in> set (positions l (2 * i))" by blast
  qed
  have R: "set (positions r (2 * i + 1)) = {j \<in> below (2 * i + 1). j \<le> n}"
  proof (intro equalityI subsetI)
    fix j assume "j \<in> set (positions r (2 * i + 1))"
    with all sr show "j \<in> {j \<in> below (2 * i + 1). j \<le> n}" by blast
  next
    fix j assume "j \<in> {j \<in> below (2 * i + 1). j \<le> n}"
    then have j: "j \<in> below (2 * i + 1)" "j \<le> n" by simp_all
    with all have "j \<in> insert i (set (positions l (2 * i)) \<union> set (positions r (2 * i + 1)))" by blast
    with j(1) ni(2) sl dis show "j \<in> set (positions r (2 * i + 1))" by blast
  qed
  from BTNode.IH(1) [OF p2(1) L] obtain el where el: "init_complete_node el n (2 * i) = Some l" ..
  from BTNode.IH(2) [OF p2(2) R] obtain er where er: "init_complete_node er n (2 * i + 1) = Some r" ..
  define e where "e = (\<lambda>j. if j = i then x else if j \<in> below (2 * i) then el j else er j)"
  have "\<forall>j\<in>below (2 * i). el j = e j" using ni(1) by (auto simp: e_def)
  from init_complete_node_cong_below [OF el this] have l: "init_complete_node e n (2 * i) = Some l" .
  have "\<forall>j\<in>below (2 * i + 1). er j = e j" using ni(2) dis by (auto simp: e_def)
  from init_complete_node_cong_below [OF er this] have r: "init_complete_node e n (2 * i + 1) = Some r" .
  have "e i = x" by (simp add: e_def)
  with l r le have "init_complete_node e n i = Some (BTNode x l r)"
    by (simp add: init_complete_node_BTNode)
  then show ?case by blast
qed

lemma complete_iff_built:
  "complete this \<longleftrightarrow> (\<exists>elements n. BinaryTree_array elements n = Some this)"
proof
  assume c: "complete this"
  have "{j \<in> below 1. j \<le> node_count this} = {1..node_count this}"
    using below_1 below_ge [of 1] by force
  with c have "set (positions (root this) 1) = {j \<in> below 1. j \<le> node_count this}"
    by (simp add: complete_def)
  from complete_shape_is_built [OF _ this] obtain e
    where "init_complete_node e (node_count this) 1 = Some (root this)" by auto
  then have "BinaryTree_array e (node_count this) = Some this"
    by (simp add: BinaryTree_array_root)
  then show "\<exists>elements n. BinaryTree_array elements n = Some this" by blast
next
  assume "\<exists>elements n. BinaryTree_array elements n = Some this"
  then obtain e n where t: "init_complete_node e n 1 = Some (root this)"
    by (auto simp: BinaryTree_array_root)
  have "{1..n} = {1..max 0 n}" by auto
  with positions_root(1) [OF t] node_count_init_complete_node [OF t]
  show "complete this" by (simp add: complete_def node_count_def)
qed

subsection \<open>The operators on complete trees\<close>



lemma copy_h_complete:
  assumes "complete s"
  shows "BinaryTree_copy_h srcEle0 s = Some s" "operator_assign_h srcEle0 a s = Some s"
proof -
  from assms obtain e n where t: "init_complete_node e n 1 = Some (root s)"
    by (auto simp: complete_iff_built BinaryTree_array_root)
  have s: "s = \<lparr>root = root s\<rparr>" by simp
  from copy_complete [OF t, of srcEle0] s
  have "init_complete_node (snd (to_flat_array s srcEle0 (node_count s))) (node_count s) 1
          = Some (root s)"
    by simp
  then show "BinaryTree_copy_h srcEle0 s = Some s" "operator_assign_h srcEle0 a s = Some s"
    by (simp_all add: BinaryTree_copy_h_def operator_assign_h_def init_complete_def)
qed

text \<open>
  The copy constructor of BinaryTree.h always returns, and what it returns is a complete
  tree; it is the source exactly when the source is complete.
\<close>

lemma copy_h_is_source_iff_complete:
  "\<exists>copy. BinaryTree_copy_h srcEle0 src = Some copy \<and> complete copy
      \<and> (copy = src \<longleftrightarrow> complete src)"
proof -
  define srcEle where "srcEle = snd (to_flat_array src srcEle0 (node_count src))"
  obtain t where t: "init_complete_node srcEle (node_count src) 1 = Some t"
    using init_complete_node_returns [of 1 srcEle "node_count src"] by auto
  then have built: "BinaryTree_array srcEle (node_count src) = Some \<lparr>root = t\<rparr>"
    by (simp add: BinaryTree_array_def init_complete_def)
  then have copy: "BinaryTree_copy_h srcEle0 src = Some \<lparr>root = t\<rparr>"
    by (simp add: BinaryTree_copy_h_def BinaryTree_array_def srcEle_def)
  have c: "complete \<lparr>root = t\<rparr>"
    using built complete_iff_built by blast
  have "\<lparr>root = t\<rparr> = src \<longleftrightarrow> complete src"
  proof
    assume "\<lparr>root = t\<rparr> = src"
    with c show "complete src" by simp
  next
    assume "complete src"
    from copy_h_complete(1) [OF this, of srcEle0] copy show "\<lparr>root = t\<rparr> = src" by simp
  qed
  with copy c show ?thesis by blast
qed










section \<open>The arithmetic of \<open>int\<close>\<close>

subsection \<open>Wrap-around\<close>

lemma wrap_int_in_range:
  assumes "- 2147483648 \<le> x" "x \<le> INT_MAX"
  shows "wrap_int x = x"
proof -
  have "0 \<le> x + 2147483648" "x + 2147483648 < 4294967296"
    using assms by (simp_all add: INT_MAX_def)
  then have "(x + 2147483648) mod 4294967296 = x + 2147483648"
    by (rule mod_pos_pos_trivial)
  then show ?thesis unfolding wrap_int_def by simp
qed

lemma wrap_int_child:
  assumes "1 \<le> i" "2 * i + 1 \<le> INT_MAX"
  shows "wrap_int (2 * i) = 2 * i" "wrap_int (wrap_int (2 * i) + 1) = 2 * i + 1"
proof -
  show a: "wrap_int (2 * i) = 2 * i"
    using assms by (intro wrap_int_in_range) simp_all
  show "wrap_int (wrap_int (2 * i) + 1) = 2 * i + 1"
    unfolding a using assms by (intro wrap_int_in_range) simp_all
qed

lemma wrap_int_left_child:
  assumes "1 \<le> i" "2 * i \<le> INT_MAX"
  shows "wrap_int (2 * i) = 2 * i"
  using assms by (intro wrap_int_in_range) simp_all

subsection \<open>Array construction in the width of \<open>int\<close>\<close>

lemma init_complete_node_i32_NULL: "n < i \<Longrightarrow> init_complete_node_i32 e n i = Some NULL"
  by (subst init_complete_node_i32.simps) simp

lemma init_complete_node_i32_BTNode:
  "i \<le> n \<Longrightarrow> init_complete_node_i32 e n i =
     do { l \<leftarrow> init_complete_node_i32 e n (wrap_int (2 * i));
          r \<leftarrow> init_complete_node_i32 e n (wrap_int (wrap_int (2 * i) + 1));
          Some (BTNode (e i) l r) }"
  by (subst init_complete_node_i32.simps) simp

lemma init_complete_node_i32_refines:
  assumes "init_complete_node e n i = Some t" "1 \<le> i" "n < 1073741824"
  shows "init_complete_node_i32 e n i = Some t"
  using assms(1,2)
proof (induction rule: init_complete_node_induct)
  case (NULL i)
  then show ?case by (simp add: init_complete_node_i32_NULL)
next
  case (BTNode i l r)
  have p2: "1 \<le> 2 * i" "1 \<le> 2 * i + 1"
    using BTNode.prems by simp_all
  have l: "init_complete_node_i32 e n (2 * i) = Some l" using BTNode p2 by blast
  have r: "init_complete_node_i32 e n (2 * i + 1) = Some r" using BTNode p2 by blast
  have le: "i \<le> n" by fact
  have "2 * i + 1 \<le> INT_MAX"
    using le assms(3) by (simp add: INT_MAX_def)
  from wrap_int_child [OF BTNode.prems this] l r le show ?case
    by (simp add: init_complete_node_i32_BTNode)
qed

lemma init_complete_node_i32_eq:
  assumes "n < 1073741824"
  shows "init_complete_node_i32 e n 1 = init_complete_node e n 1"
proof -
  obtain t where t: "init_complete_node e n 1 = Some t"
    using init_complete_node_returns [of 1 e n] by auto
  from init_complete_node_i32_refines [OF t _ assms] t show ?thesis by simp
qed

lemma BinaryTree_array_i32_eq:
  "n < 1073741824 \<Longrightarrow> BinaryTree_array_i32 e n = BinaryTree_array e n"
  by (simp add: BinaryTree_array_i32_def BinaryTree_array_def init_complete_i32_def
      init_complete_def init_complete_node_i32_eq)

text \<open>
  From \<open>2^30\<close> elements on, array construction does not return: the helper reaches the
  index \<open>2^30\<close>, which is not beyond the end of the array, doubles it to \<open>2^31\<close>, which
  wraps to \<open>-2^31\<close>, doubles that to \<open>-2^32\<close>, which wraps to 0, and from index 0 on it
  calls itself at index 0 forever.
\<close>

lemma init_complete_node_i32_at_0:
  assumes "init_complete_node_i32 e n i = Some t"
  shows "\<not> (i = 0 \<and> 0 \<le> n)"
proof (rule init_complete_node_i32.raw_induct
    [where P = "\<lambda>e n i t. \<not> (i = 0 \<and> 0 \<le> n)", OF _ assms])
  fix f :: "(int \<Rightarrow> 'a) \<Rightarrow> int \<Rightarrow> int \<Rightarrow> 'a BTNode option" and e n i t
  assume IH: "\<And>e n i t. f e n i = Some t \<Longrightarrow> \<not> (i = 0 \<and> 0 \<le> n)"
    and step: "(if n < i then Some NULL
                else do { l \<leftarrow> f e n (wrap_int (2 * i));
                          r \<leftarrow> f e n (wrap_int (wrap_int (2 * i) + 1));
                          Some (BTNode (e i) l r) }) = Some t"
  show "\<not> (i = 0 \<and> 0 \<le> n)"
  proof
    assume a: "i = 0 \<and> 0 \<le> n"
    have "wrap_int (2 * 0) = 0" by (simp add: wrap_int_def)
    with a step obtain l where "f e n 0 = Some l"
      by (auto simp: bind_eq_Some_conv)
    from IH [OF this] a show False by simp
  qed
qed

lemma init_complete_node_i32_None_at_0: "0 \<le> n \<Longrightarrow> init_complete_node_i32 e n 0 = None"
  using init_complete_node_i32_at_0 [of e n 0] by (cases "init_complete_node_i32 e n 0") auto

lemma init_complete_node_i32_None_step:
  assumes "i \<le> n" "init_complete_node_i32 e n (wrap_int (2 * i)) = None"
  shows "init_complete_node_i32 e n i = None"
  using assms by (simp add: init_complete_node_i32_BTNode)

lemma init_complete_node_i32_None_at_min:
  assumes "0 \<le> n"
  shows "init_complete_node_i32 e n (- 2147483648) = None"
proof (rule init_complete_node_i32_None_step)
  show "- 2147483648 \<le> n" using assms by simp
  have "wrap_int (2 * (- 2147483648)) = 0" by (simp add: wrap_int_def)
  then show "init_complete_node_i32 e n (wrap_int (2 * (- 2147483648))) = None"
    using init_complete_node_i32_None_at_0 [OF assms, of e] by (simp only:)
qed

lemma init_complete_node_i32_None_at_power:
  assumes "1073741824 \<le> n" "k \<le> 30"
  shows "init_complete_node_i32 e n (2 ^ (30 - k)) = None"
  using assms(2)
proof (induction k)
  case 0
  have "wrap_int (2 * 1073741824) = - 2147483648" by (simp add: wrap_int_def)
  moreover have "0 \<le> n" using assms(1) by simp
  ultimately have "init_complete_node_i32 e n (wrap_int (2 * 1073741824)) = None"
    by (simp only: init_complete_node_i32_None_at_min)
  with assms(1) have "init_complete_node_i32 e n 1073741824 = None"
    by (rule init_complete_node_i32_None_step)
  then show ?case by simp
next
  case (Suc k)
  define x :: int where "x = 2 ^ (30 - Suc k)"
  have k: "k \<le> 30" "30 - k = Suc (30 - Suc k)" using Suc.prems by simp_all
  have dbl: "2 * x = 2 ^ (30 - k)"
    unfolding x_def by (subst k(2)) (simp only: power_Suc)
  have "(2::int) ^ (30 - k) \<le> 2 ^ 30"
    by (intro power_increasing) simp_all
  moreover have "(2::int) ^ 30 = 1073741824" by simp
  ultimately have up: "2 * x \<le> 1073741824" using dbl by (simp only:)
  have pos: "0 < x" unfolding x_def by (rule zero_less_power) simp
  have "wrap_int (2 * x) = 2 * x"
  proof (rule wrap_int_in_range)
    show "- 2147483648 \<le> 2 * x" using pos by linarith
    show "2 * x \<le> INT_MAX" unfolding INT_MAX_def using up by linarith
  qed
  with Suc.IH [OF k(1)] dbl have "init_complete_node_i32 e n (wrap_int (2 * x)) = None"
    by (simp only:)
  moreover have "x \<le> n" using up pos assms(1) by linarith
  ultimately have "init_complete_node_i32 e n x = None"
    by (rule init_complete_node_i32_None_step [rotated])
  then show ?case unfolding x_def .
qed

lemma init_complete_node_i32_never_returns:
  assumes "1073741824 \<le> n"
  shows "init_complete_node_i32 e n 1 = None"
  using init_complete_node_i32_None_at_power [OF assms, of 30 e] by simp

lemma BinaryTree_array_i32_never_returns:
  "1073741824 \<le> n \<Longrightarrow> BinaryTree_array_i32 e n = None"
  by (simp add: BinaryTree_array_i32_def init_complete_i32_def init_complete_node_i32_never_returns)

subsection \<open>\<open>to_flat_array\<close> in the width of \<open>int\<close>\<close>

lemma to_flat_array_node_i32_NULL_index:
  "to_flat_array_node_i32 b mx NULL i mi = to_flat_array_node b mx NULL j mi"
  by simp

lemma to_flat_array_node_i32_refines:
  assumes "1 \<le> i" "list_all (\<lambda>p. p \<le> INT_MAX) (positions t i)"
  shows "to_flat_array_node_i32 b mx t i mi = to_flat_array_node b mx t i mi"
  using assms
proof (induction t arbitrary: i b mi)
  case NULL
  then show ?case by simp
next
  case (BTNode e l r)
  have p2: "1 \<le> 2 * i" "1 \<le> 2 * i + 1" using BTNode.prems(1) by simp_all
  have fl: "list_all (\<lambda>p. p \<le> INT_MAX) (positions l (2 * i))"
    and fr: "list_all (\<lambda>p. p \<le> INT_MAX) (positions r (2 * i + 1))"
    using BTNode.prems(2) by simp_all
  have L: "to_flat_array_node_i32 b' mx l (wrap_int (2 * i)) mi' = to_flat_array_node b' mx l (2 * i) mi'"
    for b' mi'
  proof (cases l)
    case NULL
    then show ?thesis by simp
  next
    case (BTNode e' l' r')
    with fl have "2 * i \<le> INT_MAX" by simp
    from wrap_int_left_child [OF BTNode.prems(1) this] BTNode.IH(1) [OF p2(1) fl]
    show ?thesis by simp
  qed
  have R: "to_flat_array_node_i32 b' mx r (wrap_int (wrap_int (2 * i) + 1)) mi'
             = to_flat_array_node b' mx r (2 * i + 1) mi'"
    for b' mi'
  proof (cases r)
    case NULL
    then show ?thesis by simp
  next
    case (BTNode e' l' r')
    with fr have "2 * i + 1 \<le> INT_MAX" by simp
    from wrap_int_child(2) [OF BTNode.prems(1) this] BTNode.IH(2) [OF p2(2) fr]
    show ?thesis by simp
  qed
  show ?case by (simp add: L R)
qed

lemma to_flat_array_i32_eq:
  assumes "list_all (\<lambda>p. p \<le> INT_MAX) (positions (root this) 1)"
  shows "to_flat_array_i32 this b mx = to_flat_array this b mx"
  using to_flat_array_node_i32_refines [OF _ assms]
  by (simp add: to_flat_array_i32_def to_flat_array_def)


subsection \<open>\<open>to_flat_array\<close> on a right spine of 32 nodes\<close>

text \<open>
  The first 31 nodes of the spine sit at the positions \<open>2^1 - 1\<close> to \<open>2^31 - 1\<close>, which
  the helper computes without overflow. For the last node it computes
  \<open>2 * (2^31 - 1)\<close>, which wraps to \<open>-2\<close>, and adds one: the node at position
  \<open>2^32 - 1\<close> is visited with the index \<open>-1\<close>.
\<close>

lemma to_flat_array_node_i32_fst:
  "t \<noteq> NULL \<Longrightarrow>
     fst (to_flat_array_node_i32 b mx t i mi) = snd (snd (to_flat_array_node_i32 b mx t i mi))"
  by (cases t) (simp_all add: split_beta Let_def)

lemma right_spine_steps:
  assumes "1 \<le> i" "mi \<le> i" "mx < 1" "(i + 1) * 2 ^ k \<le> 2147483648"
  shows "snd (to_flat_array_node_i32 b mx (right_spine (k + m) x) i mi) =
         snd (to_flat_array_node_i32 b mx (right_spine m x) ((i + 1) * 2 ^ k - 1)
                (if k = 0 then mi else (i + 1) * 2 ^ (k - 1) - 1))"
  using assms
proof (induction k arbitrary: i mi)
  case 0
  then show ?case by simp
next
  case (Suc k)
  define q where "q = (i + 1) * 2 ^ k"
  have q2: "(i + 1) * 2 ^ Suc k = 2 * q" by (simp add: q_def)
  have "(i + 1) * 1 \<le> (i + 1) * 2 ^ k"
    using Suc.prems(1) by (intro mult_left_mono) simp_all
  then have iq: "i + 1 \<le> q" by (simp add: q_def)
  have up: "2 * q \<le> 2147483648" using Suc.prems(4) q2 by (simp only:)
  have "2 * i + 1 \<le> INT_MAX" unfolding INT_MAX_def using iq up by linarith
  from wrap_int_child(2) [OF Suc.prems(1) this]
  have w: "wrap_int (wrap_int (2 * i) + 1) = 2 * i + 1" .
  have nowrite: "\<not> i \<le> mx" using Suc.prems(1,3) by simp
  have mi1: "(if i > mi then i else mi) = i" using Suc.prems(2) by simp
  have "snd (to_flat_array_node_i32 b mx (right_spine (Suc k + m) x) i mi) =
        snd (to_flat_array_node_i32 b mx (right_spine (k + m) x) (2 * i + 1) i)"
    using nowrite mi1 by (simp add: split_beta Let_def w)
  also have "\<dots> = snd (to_flat_array_node_i32 b mx (right_spine m x) ((2 * i + 1 + 1) * 2 ^ k - 1)
                (if k = 0 then i else (2 * i + 1 + 1) * 2 ^ (k - 1) - 1))"
  proof (rule Suc.IH)
    show "1 \<le> 2 * i + 1" using Suc.prems(1) by simp
    show "i \<le> 2 * i + 1" using Suc.prems(1) by simp
    show "mx < 1" by fact
    have "(2 * i + 1 + 1) * 2 ^ k = 2 * q" by (simp add: q_def algebra_simps)
    with up show "(2 * i + 1 + 1) * 2 ^ k \<le> 2147483648" by (simp only:)
  qed
  also have "(2 * i + 1 + 1) * 2 ^ k - 1 = (i + 1) * 2 ^ Suc k - 1"
    by (simp add: algebra_simps)
  also have "(if k = 0 then i else (2 * i + 1 + 1) * 2 ^ (k - 1) - 1) = (i + 1) * 2 ^ (Suc k - 1) - 1"
  proof (cases k)
    case 0
    then show ?thesis by simp
  next
    case (Suc k')
    then show ?thesis by (simp add: algebra_simps)
  qed
  finally show ?case by simp
qed

lemma right_spine_32:
  assumes "mx < 1"
  shows "snd (to_flat_array_node_i32 b mx (right_spine 32 x) 1 1) =
         snd (to_flat_array_node_i32 b mx (right_spine 2 x) 2147483647 1073741823)"
proof -
  have "snd (to_flat_array_node_i32 b mx (right_spine (30 + 2) x) 1 1) =
        snd (to_flat_array_node_i32 b mx (right_spine 2 x) ((1 + 1) * 2 ^ 30 - 1)
               (if (30::nat) = 0 then 1 else (1 + 1) * 2 ^ (30 - 1) - 1))"
    using assms by (intro right_spine_steps) simp_all
  then show ?thesis by simp
qed

lemma right_spine_2:
  "to_flat_array_node_i32 b 0 (right_spine 2 x) 2147483647 1073741823 =
     (2147483647, b(- 1 := x), 2147483647)"
  by (simp add: eval_nat_numeral wrap_int_def)

lemma right_spine_32_return: "fst (to_flat_array_i32 \<lparr>root = right_spine 32 (5::int)\<rparr> (\<lambda>i. 0) 0) = 2147483647
  \<and> 4294967295 \<in> set (positions (right_spine 32 (5::int)) 1)"
proof -
  have ne: "right_spine 32 (5::int) \<noteq> NULL" by (simp add: eval_nat_numeral)
  have "fst (to_flat_array_i32 \<lparr>root = right_spine 32 (5::int)\<rparr> (\<lambda>i. 0) 0)
          = snd (snd (to_flat_array_node_i32 (\<lambda>i. 0) 0 (right_spine 32 (5::int)) 1 1))"
    using to_flat_array_node_i32_fst [OF ne] by (simp add: to_flat_array_i32_def split_beta)
  also have "\<dots> = 2147483647"
    by (simp only: right_spine_32 [of 0, simplified] right_spine_2) simp
  finally have a: "fst (to_flat_array_i32 \<lparr>root = right_spine 32 (5::int)\<rparr> (\<lambda>i. 0) 0) = 2147483647" .
  have b: "4294967295 \<in> set (positions (right_spine 32 (5::int)) 1)"
    by (simp add: eval_nat_numeral)
  from a b show ?thesis by (rule conjI)
qed

lemma right_spine_32_store: "snd (to_flat_array_i32 \<lparr>root = right_spine 32 (5::int)\<rparr> (\<lambda>i. 0) 0) (- 1) = 5"
proof -
  have "snd (to_flat_array_i32 \<lparr>root = right_spine 32 (5::int)\<rparr> (\<lambda>i. 0) 0)
          = fst (snd (to_flat_array_node_i32 (\<lambda>i. 0) 0 (right_spine 32 (5::int)) 1 1))"
    by (simp add: to_flat_array_i32_def split_beta)
  also have "\<dots> = (\<lambda>i. 0)(- 1 := 5)"
    by (simp only: right_spine_32 [of 0, simplified] right_spine_2) simp
  finally show ?thesis by simp
qed

subsection \<open>The claims on array construction and on \<open>to_flat_array\<close>\<close>

lemma complete_positions_fit_int:
  assumes "complete this" "node_count this < 1073741824"
  shows "positions_fit_int this" "to_flat_array_i32 this elements mx = to_flat_array this elements mx"
proof -
  show f: "positions_fit_int this"
    using assms by (auto simp: complete_def positions_fit_int_def list_all_iff INT_MAX_def)
  then show "to_flat_array_i32 this elements mx = to_flat_array this elements mx"
    by (simp add: positions_fit_int_def to_flat_array_i32_eq)
qed

text \<open>On the trees that array construction returns the two models agree.\<close>

lemma built_positions_fit_int:
  assumes "init_complete_node e n 1 = Some t" "n < 1073741824"
  shows "list_all (\<lambda>p. p \<le> INT_MAX) (positions t 1)"
  using positions_root(1) [OF assms(1)] assms(2) by (auto simp: list_all_iff INT_MAX_def)

lemma BinaryTree_array_i32_built:
  assumes "n < 1073741824"
  shows "\<exists>t. init_complete_node e n 1 = Some t \<and> BinaryTree_array_i32 e n = Some \<lparr>root = t\<rparr>
            \<and> to_flat_array_i32 \<lparr>root = t\<rparr> = to_flat_array \<lparr>root = t\<rparr>"
proof -
  obtain t where t: "init_complete_node e n 1 = Some t"
    using init_complete_node_returns [of 1 e n] by auto
  then have "BinaryTree_array e n = Some \<lparr>root = t\<rparr>"
    by (simp add: BinaryTree_array_def init_complete_def)
  then have b: "BinaryTree_array_i32 e n = Some \<lparr>root = t\<rparr>"
    using assms by (simp add: BinaryTree_array_i32_eq)
  have "to_flat_array_i32 \<lparr>root = t\<rparr> b mx = to_flat_array \<lparr>root = t\<rparr> b mx" for b mx
    using built_positions_fit_int [OF t assms] by (intro to_flat_array_i32_eq) simp
  then have "to_flat_array_i32 \<lparr>root = t\<rparr> = to_flat_array \<lparr>root = t\<rparr>" by (intro ext)
  with t b show ?thesis by blast
qed

text \<open>
  Claim C5, as amended. For every \<open>n\<close> with \<open>0 \<le> n < 2^30 = 1073741824\<close> and every array,
  array construction returns a tree with exactly \<open>n\<close> nodes; the positions of its nodes
  are exactly the positions 1 to \<open>n\<close>.
\<close>

theorem node_count_BinaryTree_array_i32:
  assumes "n < 1073741824"
  shows "\<exists>tree. BinaryTree_array_i32 elements (int n) = Some tree
           \<and> node_count tree = int n
           \<and> set (positions (root tree) 1) = {1..int n}"
proof -
  from assms have "int n < 1073741824" by simp
  from BinaryTree_array_i32_built [OF this, of elements] obtain t
    where t: "init_complete_node elements (int n) 1 = Some t"
      and b: "BinaryTree_array_i32 elements (int n) = Some \<lparr>root = t\<rparr>"
    by blast
  have "node_count \<lparr>root = t\<rparr> = int n"
    using node_count_init_complete_node [OF t] by (simp add: node_count_def)
  moreover have "set (positions (root \<lparr>root = t\<rparr>) 1) = {1..int n}"
    using positions_root(1) [OF t] by simp
  ultimately show ?thesis using b by blast
qed

theorem node_count_BinaryTree_array_i32_witness:
  "(3::nat) < 1073741824
   \<and> (\<exists>tree. BinaryTree_array_i32 ((\<lambda>i. 0)(1 := 10, 2 := 20, 3 := 30 :: int)) (int 3) = Some tree
         \<and> node_count tree = int 3
         \<and> set (positions (root tree) 1) = {1..int 3})"
  using node_count_BinaryTree_array_i32 [of 3 "(\<lambda>i. 0)(1 := 10, 2 := 20, 3 := 30 :: int)"]
  by simp

text \<open>
  Claim C5 as stated fails at \<open>n = 2^30\<close>: array construction does not return, so there is
  no tree whose nodes could be counted.
\<close>

theorem node_count_BinaryTree_array_i32_counterexample:
  "BinaryTree_array_i32 (\<lambda>i. 0 :: int) 1073741824 = None"
  by (rule BinaryTree_array_i32_never_returns) simp

text \<open>
  Claim C6, as amended. For every \<open>n\<close> with \<open>0 \<le> n < 2^30 = 1073741824\<close>, array
  construction from \<open>n\<close> elements returns a tree whose height is the ceiling of
  \<open>log\<^sub>2 (n + 1)\<close>. The empty tree has height 0 and a single leaf has height 1.
\<close>

theorem height_BinaryTree_array_i32:
  "(n < 1073741824 \<longrightarrow>
      (\<exists>tree. BinaryTree_array_i32 (elements :: int \<Rightarrow> 'a) (int n) = Some tree
         \<and> height tree = \<lceil>log 2 (real n + 1)\<rceil>))
   \<and> height \<lparr>root = NULL :: 'a BTNode\<rparr> = 0
   \<and> height \<lparr>root = BTNode (x :: 'a) NULL NULL\<rparr> = 1"
proof -
  have "\<exists>tree. BinaryTree_array_i32 elements (int n) = Some tree
         \<and> height tree = \<lceil>log 2 (real n + 1)\<rceil>" if "n < 1073741824"
  proof -
    from that have "int n < 1073741824" by simp
    from BinaryTree_array_i32_built [OF this, of elements] obtain t
      where t: "init_complete_node elements (int n) 1 = Some t"
        and b: "BinaryTree_array_i32 elements (int n) = Some \<lparr>root = t\<rparr>"
      by blast
    have "height \<lparr>root = t\<rparr> = \<lceil>log 2 (real n + 1)\<rceil>"
      using height_root [OF t] by (simp add: height_def)
    with b show ?thesis by blast
  qed
  then show ?thesis by (simp add: height_def)
qed

theorem height_BinaryTree_array_i32_witness:
  "(3::nat) < 1073741824
   \<and> (\<exists>tree. BinaryTree_array_i32 ((\<lambda>i. 0)(1 := 10, 2 := 20, 3 := 30 :: int)) (int 3) = Some tree
         \<and> height tree = \<lceil>log 2 (real (3::nat) + 1)\<rceil>)"
  using height_BinaryTree_array_i32 [of 3 "(\<lambda>i. 0)(1 := 10, 2 := 20, 3 := 30 :: int)" "0 :: int"]
  by simp

text \<open>
  Claim C6 as stated fails at \<open>n = 2^30 + 1\<close>: array construction does not return a tree.
\<close>

theorem height_BinaryTree_array_i32_counterexample:
  "BinaryTree_array_i32 (\<lambda>i. 1 :: int) 1073741825 = None"
  by (rule BinaryTree_array_i32_never_returns) simp

text \<open>
  Claim C7, as amended. For every \<open>n\<close> with \<open>0 < n < 2^30 = 1073741824\<close>, array
  construction from \<open>n\<close> elements returns a tree with \<open>1 + (n - 1) / 2\<close> leaves, and for
  \<open>n = 0\<close> a tree with no leaf. The dividend \<open>n - 1\<close> is not negative, so the truncating
  division of C++ is \<open>div\<close>.
\<close>

theorem leaf_count_BinaryTree_array_i32:
  assumes "n < 1073741824"
  shows "\<exists>tree. BinaryTree_array_i32 elements (int n) = Some tree
           \<and> leaf_count tree = (if n = 0 then 0 else 1 + (int n - 1) div 2)"
proof -
  from assms have "int n < 1073741824" by simp
  from BinaryTree_array_i32_built [OF this, of elements] obtain t
    where t: "init_complete_node elements (int n) 1 = Some t"
      and b: "BinaryTree_array_i32 elements (int n) = Some \<lparr>root = t\<rparr>"
    by blast
  have "leaf_count \<lparr>root = t\<rparr> = (if n = 0 then 0 else 1 + (int n - 1) div 2)"
    using leaf_count_root [OF t] by (simp add: leaf_count_def)
  with b show ?thesis by blast
qed

theorem leaf_count_BinaryTree_array_i32_witness:
  "(3::nat) < 1073741824
   \<and> (\<exists>tree. BinaryTree_array_i32 ((\<lambda>i. 0)(1 := 10, 2 := 20, 3 := 30 :: int)) (int 3) = Some tree
         \<and> leaf_count tree = 2)"
  using leaf_count_BinaryTree_array_i32 [of 3 "(\<lambda>i. 0)(1 := 10, 2 := 20, 3 := 30 :: int)"]
  by simp

text \<open>
  Claim C7 as stated fails at \<open>n = 2^31 - 1\<close>, the largest \<open>int\<close>: array construction
  does not return a tree.
\<close>

theorem leaf_count_BinaryTree_array_i32_counterexample:
  "BinaryTree_array_i32 (\<lambda>i. 2 :: int) 2147483647 = None"
  by (rule BinaryTree_array_i32_never_returns) simp

text \<open>
  Claim C3, as amended. For every \<open>n\<close> with \<open>0 \<le> n < 2^30 = 1073741824\<close> and every array,
  array construction returns a tree, and \<open>to_flat_array\<close> on that tree with
  \<open>max \<ge> n\<close> leaves in every cell \<open>i\<close> of \<open>1..n\<close> of the output array the value
  \<open>elements[i]\<close> the tree was built from, whatever the output array held before.
\<close>

theorem to_flat_array_BinaryTree_array_i32:
  assumes "n < 1073741824" and "int n \<le> mx" and "1 \<le> i" and "i \<le> int n"
  shows "\<exists>tree. BinaryTree_array_i32 elements (int n) = Some tree
           \<and> snd (to_flat_array_i32 tree buffer mx) i = elements i"
proof -
  from assms(1) have "int n < 1073741824" by simp
  from BinaryTree_array_i32_built [OF this, of elements] obtain t
    where t: "init_complete_node elements (int n) 1 = Some t"
      and b: "BinaryTree_array_i32 elements (int n) = Some \<lparr>root = t\<rparr>"
      and f: "to_flat_array_i32 \<lparr>root = t\<rparr> = to_flat_array \<lparr>root = t\<rparr>"
    by blast
  have "snd (to_flat_array_i32 \<lparr>root = t\<rparr> buffer mx) i = elements i"
    using assms(2-4) by (simp add: f to_flat_array_init_complete [OF t])
  with b show ?thesis by blast
qed

theorem to_flat_array_BinaryTree_array_i32_witness:
  "(3::nat) < 1073741824 \<and> int 3 \<le> 5 \<and> (1::int) \<le> 2 \<and> 2 \<le> int 3
   \<and> (\<exists>tree. BinaryTree_array_i32 ((\<lambda>i. 0)(1 := 10, 2 := 20, 3 := 30)) (int 3) = Some tree
         \<and> snd (to_flat_array_i32 tree (\<lambda>i. 7) 5) 2 = (20::int))"
  using to_flat_array_BinaryTree_array_i32
    [of 3 5 2 "(\<lambda>i. 0)(1 := 10, 2 := 20, 3 := 30)" "\<lambda>i. 7"]
  by simp

text \<open>
  Claim C3 as stated fails at \<open>n = 2^30\<close>: array construction does not return, so there is
  no tree to convert back.
\<close>

theorem to_flat_array_BinaryTree_array_i32_counterexample:
  "BinaryTree_array_i32 ((\<lambda>i. 0)(1 := 10 :: int)) 1073741824 = None"
  by (rule BinaryTree_array_i32_never_returns) simp

text \<open>
  Claim C4, as amended. On every tree whose node positions are all at most
  \<open>INT_MAX = 2^31 - 1\<close>, complete or not, and for every \<open>max\<close>, negative, zero or smaller
  than the number of nodes, \<open>to_flat_array\<close> returns the largest complete-tree position of
  a node of the tree, and 0 on the empty tree.
\<close>

theorem to_flat_array_i32_returns_max_position:
  assumes "positions_fit_int this"
  shows "fst (to_flat_array_i32 this elements mx) =
           (if root this = NULL then 0 else Max (set (positions (root this) 1)))"
  using assms to_flat_array_return [of this elements mx]
  by (simp add: positions_fit_int_def to_flat_array_i32_eq)

theorem to_flat_array_i32_returns_max_position_witness:
  "positions_fit_int \<lparr>root = BTNode (1::int) NULL (BTNode 2 NULL NULL)\<rparr>
   \<and> fst (to_flat_array_i32 \<lparr>root = BTNode (1::int) NULL (BTNode 2 NULL NULL)\<rparr> (\<lambda>i. 7) 0) = 3"
proof -
  have f: "positions_fit_int \<lparr>root = BTNode (1::int) NULL (BTNode 2 NULL NULL)\<rparr>"
    by (simp add: positions_fit_int_def INT_MAX_def)
  from f to_flat_array_i32_returns_max_position [OF f, of "\<lambda>i. 7" 0]
  show ?thesis by simp
qed

text \<open>
  Claim C4 as stated fails on the right spine of 32 nodes: its last node sits at position
  \<open>2^32 - 1 = 4294967295\<close>, and \<open>to_flat_array\<close> returns \<open>2^31 - 1 = 2147483647\<close>, the
  position of the node before it.
\<close>

theorem to_flat_array_i32_return_counterexample:
  "fst (to_flat_array_i32 \<lparr>root = right_spine 32 (5::int)\<rparr> (\<lambda>i. 0) 0) = 2147483647
   \<and> 4294967295 \<in> set (positions (root \<lparr>root = right_spine 32 (5::int)\<rparr>) 1)"
  using right_spine_32_return by simp

text \<open>
  Claim C9, as amended. On every tree whose node positions are all at most
  \<open>INT_MAX = 2^31 - 1\<close> and for every \<open>max\<close>, \<open>to_flat_array\<close> changes a cell of the array
  only at an index \<open>i\<close> with \<open>1 \<le> i \<le> max\<close> that is the position of a node of the tree;
  every other cell, cell 0 and every cell above \<open>max\<close> among them, holds after the call what
  it held before.
\<close>

theorem to_flat_array_i32_frame:
  assumes "positions_fit_int this"
  shows "(\<forall>i. \<not> (1 \<le> i \<and> i \<le> mx \<and> i \<in> set (positions (root this) 1)) \<longrightarrow>
            snd (to_flat_array_i32 this elements mx) i = elements i)
         \<and> snd (to_flat_array_i32 this elements mx) 0 = elements 0
         \<and> (\<forall>i. mx < i \<longrightarrow> snd (to_flat_array_i32 this elements mx) i = elements i)"
  using assms by (simp add: positions_fit_int_def to_flat_array_i32_eq to_flat_array_frame_aux)

theorem to_flat_array_i32_frame_witness:
  "positions_fit_int \<lparr>root = BTNode (1::int) NULL (BTNode 2 NULL NULL)\<rparr>
   \<and> \<not> (1 \<le> (3::int) \<and> (3::int) \<le> 2
       \<and> 3 \<in> set (positions (root \<lparr>root = BTNode (1::int) NULL (BTNode 2 NULL NULL)\<rparr>) 1))
   \<and> (2::int) < 3
   \<and> snd (to_flat_array_i32 \<lparr>root = BTNode (1::int) NULL (BTNode 2 NULL NULL)\<rparr> (\<lambda>i. 7) 2) 3 = 7
   \<and> snd (to_flat_array_i32 \<lparr>root = BTNode (1::int) NULL (BTNode 2 NULL NULL)\<rparr> (\<lambda>i. 7) 2) 0 = 7"
proof -
  have f: "positions_fit_int \<lparr>root = BTNode (1::int) NULL (BTNode 2 NULL NULL)\<rparr>"
    by (simp add: positions_fit_int_def INT_MAX_def)
  from f to_flat_array_i32_frame
    [OF f, of 2 "\<lambda>i. 7"]
  show ?thesis by simp
qed

text \<open>
  Claim C9 as stated fails on the right spine of 32 nodes with \<open>max = 0\<close>: the last node is
  visited with the index \<open>-1\<close>, which is not above \<open>max\<close>, and its element 5 is stored
  into the cell \<open>-1\<close> of an array that held 0 everywhere.
\<close>

theorem to_flat_array_i32_frame_counterexample:
  "snd (to_flat_array_i32 \<lparr>root = right_spine 32 (5::int)\<rparr> (\<lambda>i. 0) 0) (- 1) = 5"
  by (rule right_spine_32_store)

end
